theory Spec2Isabelle
  imports Main
begin

section \<open>The commit store of \<open>archived<Value>\<close>\<close>

text \<open>
  \<open>archived<Value>\<close> keeps its commits in a \<open>std::forward_list\<close> and refers to them by
  list iterators, which are node addresses. The model keeps the nodes in a memory
  (a partial map from addresses to commits) and the list as the sequence of its node
  addresses, front first. An iterator is an address, or nothing for the value-initialised
  iterator (which is also \<open>end()\<close>, so \<open>begin()\<close> of an empty list).

  The value type \<open>Value\<close> is any type with an associative \<open>+\<close> whose value-initialised
  element is neutral: the class \<open>monoid_add\<close>.
\<close>

type_synonym addr = nat

type_synonym iterator_type = "addr option"

text \<open>\<open>class commit : public std::pair<iterator_type, Value>\<close>\<close>

record 'v commit_type =
  first :: iterator_type
  second :: 'v

text \<open>\<open>class version\<close>, with its one member \<open>archive_iterator_\<close>\<close>

datatype version_type = Version (archive_iterator: iterator_type)

type_synonym 'v memory = "addr \<rightharpoonup> 'v commit_type"

text \<open>
  The members \<open>storage_\<close> and \<open>last_\<close>; \<open>cells\<close> is the memory the nodes of \<open>storage_\<close>
  live in.
\<close>

record 'v archived =
  cells :: "'v memory"
  storage :: "addr list"
  lastv :: version_type

text \<open>
  The source checks no iterator before it dereferences it. Dereferencing the
  value-initialised iterator or an iterator to a destroyed node is undefined behaviour in
  C++, and so is reaching the closing brace of a function that returns a value without a
  \<open>return\<close> statement. The model records which of the three happened and stops there:
  after a fault there is no archive and no result. None of them is an exception: the
  source has no \<open>throw\<close>.
\<close>

datatype fault = Null_iterator | Dangling_iterator | Missing_return

definition then_do :: "fault + 'a \<Rightarrow> ('a \<Rightarrow> fault + 'b) \<Rightarrow> fault + 'b" where
  "then_do r f = (case r of Inl e \<Rightarrow> Inl e | Inr x \<Rightarrow> f x)"

text \<open>\<open>*it\<close>\<close>

definition deref :: "'v memory \<Rightarrow> iterator_type \<Rightarrow> fault + 'v commit_type" where
  "deref m it =
     (case it of
        None \<Rightarrow> Inl Null_iterator
      | Some p \<Rightarrow> (case m p of None \<Rightarrow> Inl Dangling_iterator | Some c \<Rightarrow> Inr c))"

text \<open>\<open>it->first = x\<close> and \<open>it->second = x\<close>\<close>

definition assign_first :: "'v memory \<Rightarrow> iterator_type \<Rightarrow> iterator_type \<Rightarrow> fault + 'v memory" where
  "assign_first m it x =
     (case it of
        None \<Rightarrow> Inl Null_iterator
      | Some p \<Rightarrow>
          (case m p of
             None \<Rightarrow> Inl Dangling_iterator
           | Some c \<Rightarrow> Inr (m(p \<mapsto> c\<lparr>first := x\<rparr>))))"

definition assign_second :: "'v memory \<Rightarrow> iterator_type \<Rightarrow> 'v \<Rightarrow> fault + 'v memory" where
  "assign_second m it x =
     (case it of
        None \<Rightarrow> Inl Null_iterator
      | Some p \<Rightarrow>
          (case m p of
             None \<Rightarrow> Inl Dangling_iterator
           | Some c \<Rightarrow> Inr (m(p \<mapsto> c\<lparr>second := x\<rparr>))))"

text \<open>\<open>is_head_commit\<close>: \<open>iterator_to_commit->first == iterator_to_commit\<close>\<close>

definition is_head_commit :: "'v memory \<Rightarrow> iterator_type \<Rightarrow> fault + bool" where
  "is_head_commit m iterator_to_commit =
     then_do (deref m iterator_to_commit) (\<lambda>c. Inr (first c = iterator_to_commit))"

text \<open>
  The two assignments of \<open>compute_diff_to_current\<close> after its recursive call:
  \<open>old->second += next->second; old->first = next->first;\<close>
\<close>

definition absorb_next :: "'v::monoid_add memory \<Rightarrow> iterator_type \<Rightarrow> iterator_type \<Rightarrow> fault + 'v memory" where
  "absorb_next m old next =
     then_do (deref m old) (\<lambda>co.
     then_do (deref m next) (\<lambda>cn.
     then_do (assign_second m old (second co + second cn)) (\<lambda>m1.
     then_do (deref m1 next) (\<lambda>cn1.
     assign_first m1 old (first cn1)))))"

text \<open>
  \<open>compute_diff_to_current\<close> recurses along the successors. On a memory whose successors
  form a cycle without a head the recursion never ends: the result \<open>None\<close>.
\<close>

partial_function (option) compute_diff_to_current ::
  "'v::monoid_add memory \<Rightarrow> iterator_type \<Rightarrow> (fault + 'v memory) option" where
  "compute_diff_to_current m old =
     (case deref m old of
        Inl e \<Rightarrow> Some (Inl e)
      | Inr c \<Rightarrow>
          (let next = first c in
           case is_head_commit m next of
             Inl e \<Rightarrow> Some (Inl e)
           | Inr h \<Rightarrow>
               if \<not> h
               then Option.bind (compute_diff_to_current m next)
                      (\<lambda>r. Some (then_do r (\<lambda>m1. absorb_next m1 old next)))
               else Some (Inr m)))"

text \<open>
  The free function \<open>diff_to_current\<close>. The source reaches the archive through the
  iterator; the model is given the archive the version is used with.
\<close>

definition diff_to_current ::
  "'v::monoid_add archived \<Rightarrow> version_type \<Rightarrow> (fault + 'v archived \<times> 'v) option" where
  "diff_to_current a old =
     Option.bind (compute_diff_to_current (cells a) (archive_iterator old))
       (\<lambda>r. Some (then_do r (\<lambda>m1.
              then_do (deref m1 (archive_iterator old)) (\<lambda>c.
              Inr (a\<lparr>cells := m1\<rparr>, second c)))))"

subsection \<open>Node allocation\<close>

text \<open>
  \<open>push_front\<close> obtains the new node from \<open>std::allocator\<close>, which is not part of the
  source. The operations that allocate take the allocator as a parameter: a function
  that is given the addresses in use and answers the address of the new node.
\<close>

type_synonym allocator = "addr set \<Rightarrow> addr"

text \<open>What every allocator guarantees: the new node is none of the nodes in use.\<close>

definition fresh_allocator :: "allocator \<Rightarrow> bool" where
  "fresh_allocator alloc = (\<forall>S. finite S \<longrightarrow> alloc S \<notin> S)"

text \<open>
  Two allocators: one answers the address after the highest one in use, one the lowest
  address not in use.
\<close>

definition bump :: allocator where
  "bump S = (if S = {} then 0 else Max S + 1)"

definition lowest_free :: allocator where
  "lowest_free S = (LEAST p. p \<notin> S)"

subsection \<open>The member functions\<close>

text \<open>\<open>storage_.begin()\<close>\<close>

definition storage_begin :: "'v archived \<Rightarrow> iterator_type" where
  "storage_begin a = (case storage a of [] \<Rightarrow> None | p # _ \<Rightarrow> Some p)"

text \<open>\<open>storage_.clear()\<close> destroys every node of the list.\<close>

definition storage_clear :: "'v archived \<Rightarrow> 'v archived" where
  "storage_clear a =
     a\<lparr>cells := (\<lambda>p. if p \<in> set (storage a) then None else cells a p), storage := []\<rparr>"

text \<open>
  \<open>create_head_commit\<close>: \<open>push_front\<close> puts a copy of the value-initialised commit into
  a new node \<open>p\<close> at the front; \<open>storage_.front().first = storage_.begin()\<close> then makes
  that node its own successor.
\<close>

definition create_head_commit :: "allocator \<Rightarrow> 'v::monoid_add archived \<Rightarrow> 'v archived" where
  "create_head_commit alloc a =
     (let p = alloc (dom (cells a))
      in a\<lparr>cells := (cells a)(p \<mapsto> \<lparr>first = Some p, second = 0\<rparr>), storage := p # storage a\<rparr>)"

definition increment_by ::
  "allocator \<Rightarrow> 'v::monoid_add \<Rightarrow> 'v archived \<Rightarrow> fault + 'v archived \<times> version_type" where
  "increment_by alloc increment a =
     (let old_head = storage_begin a in
      then_do (assign_second (cells a) old_head increment) (\<lambda>m1.
        let a2 = create_head_commit alloc (a\<lparr>cells := m1\<rparr>);
            new_head = storage_begin a2
        in then_do (assign_first (cells a2) old_head new_head) (\<lambda>m3.
             Inr (a2\<lparr>cells := m3\<rparr>, Version new_head))))"

definition "value" ::
  "'v::monoid_add archived \<Rightarrow> (fault + 'v archived \<times> 'v) option" where
  "value a = diff_to_current a (lastv a)"

definition reset ::
  "allocator \<Rightarrow> 'v::monoid_add \<Rightarrow> 'v archived \<Rightarrow> fault + 'v archived \<times> version_type" where
  "reset alloc initial_value a =
     (let a1 = storage_clear a;
          a2 = create_head_commit alloc a1;
          a3 = a2\<lparr>lastv := Version (storage_begin a2)\<rparr>
      in increment_by alloc initial_value a3)"

text \<open>
  The two statements of \<open>clear_history\<close>:
  \<open>const auto current_value = value(); reset( value() );\<close>.
  The version \<open>reset\<close> returns is dropped.
\<close>

definition clear_history_statements ::
  "allocator \<Rightarrow> 'v::monoid_add archived \<Rightarrow> (fault + 'v archived) option" where
  "clear_history_statements alloc a =
     Option.bind (value a) (\<lambda>r1.
       case r1 of
         Inl e \<Rightarrow> Some (Inl e)
       | Inr (a1, current_value) \<Rightarrow>
           Option.bind (value a1) (\<lambda>r2.
             case r2 of
               Inl e \<Rightarrow> Some (Inl e)
             | Inr (a2, v) \<Rightarrow>
                 Some (then_do (reset alloc v a2) (\<lambda>(a3, returned). Inr a3))))"

text \<open>
  \<open>clear_history\<close>: after its two statements the body ends. The function is declared to
  return a \<open>version_type\<close> and has no \<open>return\<close> statement, so every call that gets
  through the statements reaches the closing brace: the fault \<open>Missing_return\<close>.
\<close>

definition clear_history ::
  "allocator \<Rightarrow> 'v::monoid_add archived \<Rightarrow> (fault + 'v archived \<times> version_type) option" where
  "clear_history alloc a =
     Option.bind (clear_history_statements alloc a)
       (\<lambda>r. Some (then_do r (\<lambda>a3. Inl Missing_return)))"

definition current :: "'v archived \<Rightarrow> version_type" where
  "current a = Version (storage_begin a)"

text \<open>The constructor: \<open>storage_()\<close>, \<open>last_()\<close>, then \<open>reset(initial_value)\<close>.\<close>

definition unconstructed :: "'v archived" where
  "unconstructed = \<lparr>cells = Map.empty, storage = [], lastv = Version None\<rparr>"

definition construct :: "allocator \<Rightarrow> 'v::monoid_add \<Rightarrow> fault + 'v archived" where
  "construct alloc initial_value =
     then_do (reset alloc initial_value unconstructed) (\<lambda>(a, returned). Inr a)"

subsection \<open>Specification\<close>

text \<open>
  The chain of successors, as a specification of what a diff is. \<open>walk m p g ps d\<close>:
  following the successors from the commit at \<open>p\<close> one arrives at the head \<open>g\<close> (the
  commit that is its own successor); \<open>ps\<close> lists the commits on the way whose successor
  field is read, starting with \<open>p\<close>, and \<open>d\<close> is the sum of their \<open>second\<close> fields in
  this order. The head is on the list only when \<open>p\<close> is the head itself.
\<close>

inductive walk :: "'v::monoid_add memory \<Rightarrow> addr \<Rightarrow> addr \<Rightarrow> addr list \<Rightarrow> 'v \<Rightarrow> bool" where
  walk_last: "m p = Some c \<Longrightarrow> first c = Some g \<Longrightarrow> m g = Some cg \<Longrightarrow> first cg = Some g
     \<Longrightarrow> walk m p g [p] (second c)"
| walk_step: "m p = Some c \<Longrightarrow> first c = Some n \<Longrightarrow> m n = Some cn \<Longrightarrow> first cn \<noteq> Some n
     \<Longrightarrow> walk m n g ps d \<Longrightarrow> walk m p g (p # ps) (second c + d)"

text \<open>
  \<open>compressed m m'\<close>: the memory \<open>m'\<close> holds the commits of \<open>m\<close>, each one either
  unchanged or pointing straight at the head of its chain with its whole diff.
\<close>

definition compressed :: "'v::monoid_add memory \<Rightarrow> 'v memory \<Rightarrow> bool" where
  "compressed m m' \<longleftrightarrow>
     (\<forall>r. case m r of
            None \<Rightarrow> m' r = None
          | Some c \<Rightarrow> m' r = Some c
              \<or> (\<exists>g ps e. walk m r g ps e \<and> m' r = Some \<lparr>first = Some g, second = e\<rparr>))"

text \<open>
  The invariant of an archive: the list is not empty and its nodes are exactly the
  allocated ones; the front node is the head, with a zero diff; the chain of every node
  ends at the front node; \<open>last_\<close> refers to a node of the list.
\<close>

definition well_formed :: "'v::monoid_add archived \<Rightarrow> bool" where
  "well_formed a \<longleftrightarrow>
     (\<exists>g rest. storage a = g # rest
        \<and> distinct (storage a)
        \<and> dom (cells a) = set (storage a)
        \<and> cells a g = Some \<lparr>first = Some g, second = 0\<rparr>
        \<and> (\<forall>p\<in>set (storage a). \<exists>ps d. walk (cells a) p g ps d)
        \<and> (\<exists>p\<in>set (storage a). lastv a = Version (Some p)))"

text \<open>
  A version the archive can answer: its iterator refers to a node of the list. The source
  has no such test; this is the hypothesis of the theorems about valid versions.
\<close>

definition valid_version :: "'v archived \<Rightarrow> version_type \<Rightarrow> bool" where
  "valid_version a s =
     (case archive_iterator s of None \<Rightarrow> False | Some p \<Rightarrow> p \<in> set (storage a))"

text \<open>
  The archives a program can hold: the constructor's, and every one a public operation
  returns from such an archive. \<open>current()\<close> changes nothing, and \<open>clear_history\<close>
  never returns; the archive its statements build is one that \<open>value()\<close>, \<open>value()\<close>
  and \<open>reset\<close> return in this order, so it is among these archives all the same.
\<close>

inductive reachable :: "allocator \<Rightarrow> 'v::monoid_add archived \<Rightarrow> bool" for alloc where
  reachable_construct: "construct alloc v = Inr a \<Longrightarrow> reachable alloc a"
| reachable_increment_by:
    "reachable alloc a \<Longrightarrow> increment_by alloc d a = Inr (a', s) \<Longrightarrow> reachable alloc a'"
| reachable_value:
    "reachable alloc a \<Longrightarrow> value a = Some (Inr (a', x)) \<Longrightarrow> reachable alloc a'"
| reachable_diff_to_current:
    "reachable alloc a \<Longrightarrow> diff_to_current a s = Some (Inr (a', x)) \<Longrightarrow> reachable alloc a'"
| reachable_reset:
    "reachable alloc a \<Longrightarrow> reset alloc v a = Inr (a', s) \<Longrightarrow> reachable alloc a'"

text \<open>
  A caller's loop \<open>for (d : ds) versions.push_back(a.increment_by(d))\<close>: the archive
  after all increments and the versions they returned.
\<close>

fun increment_all ::
  "allocator \<Rightarrow> 'v::monoid_add list \<Rightarrow> 'v archived \<Rightarrow> fault + 'v archived \<times> version_type list" where
  "increment_all alloc [] a = Inr (a, [])"
| "increment_all alloc (d # ds) a =
     then_do (increment_by alloc d a) (\<lambda>(a1, s).
     then_do (increment_all alloc ds a1) (\<lambda>(a2, ss). Inr (a2, s # ss)))"

text \<open>
  Concrete archives of \<open>archived<int>\<close>: after \<open>archived<int> a(13)\<close>; after two more
  increments by 3 and 4; after \<open>reset(7)\<close>.
\<close>

definition archive_13 :: "int archived" where
  "archive_13 =
     \<lparr>cells = [0 \<mapsto> \<lparr>first = Some 1, second = 13\<rparr>, 1 \<mapsto> \<lparr>first = Some 1, second = 0\<rparr>],
      storage = [1, 0], lastv = Version (Some 0)\<rparr>"

definition archive_13_3_4 :: "int archived" where
  "archive_13_3_4 =
     \<lparr>cells = [0 \<mapsto> \<lparr>first = Some 1, second = 13\<rparr>, 1 \<mapsto> \<lparr>first = Some 2, second = 3\<rparr>,
               2 \<mapsto> \<lparr>first = Some 3, second = 4\<rparr>, 3 \<mapsto> \<lparr>first = Some 3, second = 0\<rparr>],
      storage = [3, 2, 1, 0], lastv = Version (Some 0)\<rparr>"

definition archive_7 :: "int archived" where
  "archive_7 =
     \<lparr>cells = [0 \<mapsto> \<lparr>first = Some 1, second = 7\<rparr>, 1 \<mapsto> \<lparr>first = Some 1, second = 0\<rparr>],
      storage = [1, 0], lastv = Version (Some 0)\<rparr>"

section \<open>Chains of successors\<close>

lemma then_do_simps [simp]:
  "then_do (Inl e) f = Inl e" "then_do (Inr x) f = f x"
  by (simp_all add: then_do_def)

lemma deref_simps [simp]:
  "deref m None = Inl Null_iterator"
  "m p = None \<Longrightarrow> deref m (Some p) = Inl Dangling_iterator"
  "m p = Some c \<Longrightarrow> deref m (Some p) = Inr c"
  by (simp_all add: deref_def)

lemma walk_determ:
  "walk m p g ps d \<Longrightarrow> walk m p g' ps' d' \<Longrightarrow> g' = g \<and> ps' = ps \<and> d' = d"
proof (induction arbitrary: g' ps' d' rule: walk.induct)
  case (walk_last m p c g cg)
  note outer = walk_last.hyps
  from walk_last.prems show ?case
  proof (cases rule: walk.cases)
    case (walk_last c' cg')
    with outer show ?thesis by simp
  next
    case (walk_step c' n cn ps'' d'')
    with outer show ?thesis by simp
  qed
next
  case (walk_step m p c n cn g ps d)
  note outer = walk_step.hyps and IH = walk_step.IH
  from walk_step.prems show ?case
  proof (cases rule: walk.cases)
    case (walk_last c' cg')
    with outer show ?thesis by simp
  next
    case (walk_step c' n' cn' ps'' d'')
    note inner = this
    from inner outer have "n' = n" by simp
    with inner have "walk m n g' ps'' d''" by simp
    from IH [OF this] have "g' = g \<and> ps'' = ps \<and> d'' = d" .
    with inner outer show ?thesis by simp
  qed
qed

lemma walk_head_self:
  "walk m p g ps d \<Longrightarrow> \<exists>cg. m g = Some cg \<and> first cg = Some g"
  by (induction rule: walk.induct) auto

lemma walk_suffix:
  "walk m p g ps d \<Longrightarrow> q \<in> set ps \<Longrightarrow> \<exists>qs e. walk m q g qs e \<and> length qs \<le> length ps"
proof (induction rule: walk.induct)
  case (walk_last m p c g cg)
  then have "walk m p g [p] (second c)" by (auto intro: walk.walk_last)
  with walk_last.prems show ?case by auto
next
  case (walk_step m p c n cn g ps d)
  show ?case
  proof (cases "q = p")
    case True
    have "walk m p g (p # ps) (second c + d)"
      using walk_step.hyps by (rule walk.walk_step)
    with True show ?thesis by blast
  next
    case False
    with walk_step.prems have "q \<in> set ps" by simp
    from walk_step.IH [OF this] show ?thesis by auto
  qed
qed

lemma walk_not_revisit:
  assumes "walk m n g ps d" "m p = Some c" "first c = Some n" "m n = Some cn" "first cn \<noteq> Some n"
  shows "p \<notin> set ps"
proof
  assume "p \<in> set ps"
  from walk_suffix [OF assms(1) this] obtain qs e
    where q: "walk m p g qs e" "length qs \<le> length ps" by blast
  have "walk m p g (p # ps) (second c + d)"
    using assms(2,3,4,5,1) by (rule walk.walk_step)
  from walk_determ [OF this q(1)] q(2) show False by simp
qed

lemma compute_head:
  "m p = Some c \<Longrightarrow> first c = Some g \<Longrightarrow> m g = Some cg \<Longrightarrow> first cg = Some g
   \<Longrightarrow> compute_diff_to_current m (Some p) = Some (Inr m)"
  by (rule trans [OF compute_diff_to_current.simps]) (simp add: is_head_commit_def Let_def)

lemma compute_step:
  "m p = Some c \<Longrightarrow> first c = Some n \<Longrightarrow> m n = Some cn \<Longrightarrow> first cn \<noteq> Some n
   \<Longrightarrow> compute_diff_to_current m (Some p) =
       Option.bind (compute_diff_to_current m (Some n))
         (\<lambda>r. Some (then_do r (\<lambda>m1. absorb_next m1 (Some p) (Some n))))"
  by (rule trans [OF compute_diff_to_current.simps]) (simp add: is_head_commit_def Let_def)

lemma absorb_next_eq:
  "m p = Some c \<Longrightarrow> m n = Some cn \<Longrightarrow> p \<noteq> n
   \<Longrightarrow> absorb_next m (Some p) (Some n) =
       Inr (m(p \<mapsto> \<lparr>first = first cn, second = second c + second cn\<rparr>))"
  by (cases c) (simp add: absorb_next_def assign_first_def assign_second_def)

lemma compute_walk:
  "walk m p g ps d \<Longrightarrow>
   \<exists>m'. compute_diff_to_current m (Some p) = Some (Inr m')
      \<and> (\<forall>q\<in>set ps. \<exists>qs e. walk m q g qs e \<and> m' q = Some \<lparr>first = Some g, second = e\<rparr>)
      \<and> (\<forall>q. q \<notin> set ps \<longrightarrow> m' q = m q)"
proof (induction rule: walk.induct)
  case (walk_last m p c g cg)
  have w: "walk m p g [p] (second c)" using walk_last.hyps by (rule walk.walk_last)
  have "compute_diff_to_current m (Some p) = Some (Inr m)"
    using walk_last.hyps by (rule compute_head)
  moreover have "m p = Some \<lparr>first = Some g, second = second c\<rparr>"
    using walk_last.hyps by simp
  ultimately show ?case using w by auto
next
  case (walk_step m p c n cn g ps d)
  from walk_step.IH obtain m1 where m1:
    "compute_diff_to_current m (Some n) = Some (Inr m1)"
    "\<forall>q\<in>set ps. \<exists>qs e. walk m q g qs e \<and> m1 q = Some \<lparr>first = Some g, second = e\<rparr>"
    "\<forall>q. q \<notin> set ps \<longrightarrow> m1 q = m q" by blast
  have pn: "p \<noteq> n" using walk_step.hyps by auto
  have notin: "p \<notin> set ps"
    using walk_step.hyps(5,1,2,3,4) by (rule walk_not_revisit)
  have n_in: "n \<in> set ps" using walk_step.hyps(5) by (cases rule: walk.cases) auto
  from m1(2) n_in obtain qs e where ne: "walk m n g qs e" "m1 n = Some \<lparr>first = Some g, second = e\<rparr>"
    by blast
  from walk_determ [OF walk_step.hyps(5) ne(1)] have e: "e = d" by simp
  have m1p: "m1 p = Some c" using m1(3) notin walk_step.hyps(1) by simp
  let ?m' = "m1(p \<mapsto> \<lparr>first = Some g, second = second c + d\<rparr>)"
  have ab: "absorb_next m1 (Some p) (Some n) = Inr ?m'"
    using absorb_next_eq [OF m1p ne(2) pn] e by simp
  have comp: "compute_diff_to_current m (Some p) = Some (Inr ?m')"
    using compute_step [OF walk_step.hyps(1,2,3,4)] m1(1) ab by simp
  have w: "walk m p g (p # ps) (second c + d)"
    using walk_step.hyps by (rule walk.walk_step)
  have a: "\<forall>q\<in>set (p # ps). \<exists>qs e. walk m q g qs e \<and> ?m' q = Some \<lparr>first = Some g, second = e\<rparr>"
    using w m1(2) notin by auto
  have b: "\<forall>q. q \<notin> set (p # ps) \<longrightarrow> ?m' q = m q"
    using m1(3) by simp
  from comp a b show ?case by blast
qed

section \<open>Path compression keeps every diff\<close>

lemma walk_self:
  assumes "m g = Some cg" "first cg = Some g" "walk m g g' ps e"
  shows "g' = g \<and> ps = [g] \<and> e = second cg"
proof -
  have "walk m g g [g] (second cg)" using assms(1,2,1,2) by (rule walk_last)
  from walk_determ [OF this assms(3)] show ?thesis by simp
qed

lemma walk_start: "walk m p g ps d \<Longrightarrow> \<exists>c. m p = Some c"
  by (erule walk.cases) auto

lemma compressed_self:
  assumes "compressed m m'" "m g = Some cg" "first cg = Some g"
  shows "\<exists>cg'. m' g = Some cg' \<and> first cg' = Some g \<and> second cg' = second cg"
proof -
  from assms(1,2) have "m' g = Some cg
      \<or> (\<exists>g0 ps e. walk m g g0 ps e \<and> m' g = Some \<lparr>first = Some g0, second = e\<rparr>)"
    unfolding compressed_def by (drule_tac x = g in spec) simp
  then show ?thesis
  proof
    assume "m' g = Some cg" with assms(3) show ?thesis by simp
  next
    assume "\<exists>g0 ps e. walk m g g0 ps e \<and> m' g = Some \<lparr>first = Some g0, second = e\<rparr>"
    then obtain g0 ps e where w: "walk m g g0 ps e"
      and m': "m' g = Some \<lparr>first = Some g0, second = e\<rparr>" by blast
    from walk_self [OF assms(2,3) w] m' show ?thesis by simp
  qed
qed

lemma compressed_at:
  assumes "compressed m m'" "m p = Some c" "walk m p g ps d"
  shows "\<exists>c'. m' p = Some c' \<and> (c' = c \<or> c' = \<lparr>first = Some g, second = d\<rparr>)"
proof -
  from assms(1,2) have "m' p = Some c
      \<or> (\<exists>g0 qs e. walk m p g0 qs e \<and> m' p = Some \<lparr>first = Some g0, second = e\<rparr>)"
    unfolding compressed_def by (drule_tac x = p in spec) simp
  then show ?thesis
  proof
    assume "m' p = Some c" then show ?thesis by simp
  next
    assume "\<exists>g0 qs e. walk m p g0 qs e \<and> m' p = Some \<lparr>first = Some g0, second = e\<rparr>"
    then obtain g0 qs e where w: "walk m p g0 qs e"
      and m': "m' p = Some \<lparr>first = Some g0, second = e\<rparr>" by blast
    from walk_determ [OF assms(3) w] m' show ?thesis by simp
  qed
qed

lemma compressed_walk:
  "walk m p g ps d \<Longrightarrow> compressed m m' \<Longrightarrow> \<exists>ps'. walk m' p g ps' d"
proof (induction rule: walk.induct)
  case (walk_last m p c g cg)
  have w: "walk m p g [p] (second c)" using walk_last.hyps by (rule walk.walk_last)
  from compressed_self [OF walk_last.prems walk_last.hyps(3,4)] obtain cg'
    where g: "m' g = Some cg'" "first cg' = Some g" by blast
  from compressed_at [OF walk_last.prems walk_last.hyps(1) w] obtain c'
    where c: "m' p = Some c'" "c' = c \<or> c' = \<lparr>first = Some g, second = second c\<rparr>" by blast
  from c(2) walk_last.hyps(2) have "first c' = Some g" "second c' = second c" by auto
  with walk.walk_last [OF c(1) _ g] show ?case by auto
next
  case (walk_step m p c n cn g ps d)
  have w: "walk m p g (p # ps) (second c + d)" using walk_step.hyps by (rule walk.walk_step)
  from walk_step.IH [OF walk_step.prems] obtain ps' where n': "walk m' n g ps' d" ..
  from walk_head_self [OF walk_step.hyps(5)] obtain cg where cg: "m g = Some cg" "first cg = Some g"
    by blast
  from compressed_self [OF walk_step.prems cg] obtain cg'
    where g: "m' g = Some cg'" "first cg' = Some g" by blast
  have ng: "n \<noteq> g" using cg walk_step.hyps(3,4) by auto
  from compressed_at [OF walk_step.prems walk_step.hyps(3,5)] obtain cn'
    where cn': "m' n = Some cn'" "cn' = cn \<or> cn' = \<lparr>first = Some g, second = d\<rparr>" by blast
  from cn'(2) walk_step.hyps(4) ng have ncn': "first cn' \<noteq> Some n" by auto
  from compressed_at [OF walk_step.prems walk_step.hyps(1) w] obtain c'
    where c: "m' p = Some c'" "c' = c \<or> c' = \<lparr>first = Some g, second = second c + d\<rparr>" by blast
  from c(2) show ?case
  proof
    assume "c' = c"
    with c(1) walk_step.hyps(2) have "m' p = Some c" "first c = Some n" by simp_all
    from walk.walk_step [OF this cn'(1) ncn' n'] show ?thesis by blast
  next
    assume e: "c' = \<lparr>first = Some g, second = second c + d\<rparr>"
    then have "first c' = Some g" "second c' = second c + d" by simp_all
    with walk.walk_last [OF c(1) _ g] show ?thesis by auto
  qed
qed

lemma compute_compressed:
  assumes "walk m p g ps d"
  shows "\<exists>m'. compute_diff_to_current m (Some p) = Some (Inr m')
           \<and> m' p = Some \<lparr>first = Some g, second = d\<rparr>
           \<and> compressed m m'"
proof -
  from compute_walk [OF assms] obtain m' where m':
    "compute_diff_to_current m (Some p) = Some (Inr m')"
    "\<forall>q\<in>set ps. \<exists>qs e. walk m q g qs e \<and> m' q = Some \<lparr>first = Some g, second = e\<rparr>"
    "\<forall>q. q \<notin> set ps \<longrightarrow> m' q = m q" by blast
  have p_in: "p \<in> set ps" using assms by (cases rule: walk.cases) auto
  from m'(2) p_in obtain qs e where pe: "walk m p g qs e" "m' p = Some \<lparr>first = Some g, second = e\<rparr>"
    by blast
  from walk_determ [OF assms pe(1)] pe(2) have a: "m' p = Some \<lparr>first = Some g, second = d\<rparr>"
    by simp
  have "compressed m m'"
    unfolding compressed_def
  proof
    fix r
    show "case m r of None \<Rightarrow> m' r = None
          | Some c \<Rightarrow> m' r = Some c
              \<or> (\<exists>g ps e. walk m r g ps e \<and> m' r = Some \<lparr>first = Some g, second = e\<rparr>)"
    proof (cases "r \<in> set ps")
      case True
      with m'(2) obtain qs e where "walk m r g qs e" "m' r = Some \<lparr>first = Some g, second = e\<rparr>"
        by blast
      moreover from walk_start [OF this(1)] obtain c where "m r = Some c" ..
      ultimately show ?thesis by auto
    next
      case False
      with m'(3) have "m' r = m r" by simp
      then show ?thesis by (simp split: option.split)
    qed
  qed
  with m'(1) a show ?thesis by blast
qed

lemma compressed_dom: "compressed m m' \<Longrightarrow> dom m' = dom m"
proof -
  assume c: "compressed m m'"
  have "\<And>r. (m' r = None) = (m r = None)"
  proof -
    fix r
    from c have "case m r of None \<Rightarrow> m' r = None
          | Some c \<Rightarrow> m' r = Some c
              \<or> (\<exists>g ps e. walk m r g ps e \<and> m' r = Some \<lparr>first = Some g, second = e\<rparr>)"
      unfolding compressed_def ..
    then show "(m' r = None) = (m r = None)" by (cases "m r") auto
  qed
  then show ?thesis by (auto simp: dom_def)
qed

section \<open>The operations on a well-formed archive\<close>

lemma storage_begin_Cons [simp]: "storage a = g # rest \<Longrightarrow> storage_begin a = Some g"
  by (simp add: storage_begin_def)

lemma well_formedD:
  assumes "well_formed a"
  obtains g rest where "storage a = g # rest" "distinct (storage a)"
    "dom (cells a) = set (storage a)"
    "cells a g = Some \<lparr>first = Some g, second = 0\<rparr>"
    "\<forall>p\<in>set (storage a). \<exists>ps d. walk (cells a) p g ps d"
    "\<exists>p\<in>set (storage a). lastv a = Version (Some p)"
  using assms unfolding well_formed_def by blast

lemma diff_to_current_eq:
  assumes "compute_diff_to_current (cells a) (Some p) = Some (Inr m')" "m' p = Some c"
  shows "diff_to_current a (Version (Some p)) = Some (Inr (a\<lparr>cells := m'\<rparr>, second c))"
  using assms by (simp add: diff_to_current_def)

lemma diff_well_formed:
  assumes wf: "well_formed a" and st: "storage a = g # rest" and w: "walk (cells a) p g ps d"
  shows "\<exists>a'. diff_to_current a (Version (Some p)) = Some (Inr (a', d))
           \<and> well_formed a' \<and> storage a' = storage a \<and> lastv a' = lastv a
           \<and> compressed (cells a) (cells a')"
proof -
  from compute_compressed [OF w] obtain m' where m':
    "compute_diff_to_current (cells a) (Some p) = Some (Inr m')"
    "m' p = Some \<lparr>first = Some g, second = d\<rparr>"
    "compressed (cells a) m'" by blast
  let ?a' = "a\<lparr>cells := m'\<rparr>"
  from diff_to_current_eq [OF m'(1,2)]
  have d: "diff_to_current a (Version (Some p)) = Some (Inr (?a', d))" by simp
  from wf st obtain
    dist: "distinct (storage a)" and
    dm: "dom (cells a) = set (storage a)" and
    hd: "cells a g = Some \<lparr>first = Some g, second = 0\<rparr>" and
    ws: "\<forall>p\<in>set (storage a). \<exists>ps d. walk (cells a) p g ps d" and
    lv: "\<exists>p\<in>set (storage a). lastv a = Version (Some p)"
    by (auto elim!: well_formedD)
  from compressed_self [OF m'(3) hd] have hd': "m' g = Some \<lparr>first = Some g, second = 0\<rparr>"
    by auto
  have ws': "\<forall>p\<in>set (storage a). \<exists>ps d. walk m' p g ps d"
  proof
    fix q assume "q \<in> set (storage a)"
    with ws obtain qs e where "walk (cells a) q g qs e" by blast
    from compressed_walk [OF this m'(3)] show "\<exists>ps d. walk m' q g ps d" by blast
  qed
  have "well_formed ?a'"
    unfolding well_formed_def
    using st dist dm hd' ws' lv compressed_dom [OF m'(3)] by simp
  with d m'(3) show ?thesis by simp
qed

lemma fun_upd_thrice:
  "g \<noteq> g' \<Longrightarrow> m(g \<mapsto> A, g' \<mapsto> H, g \<mapsto> B) = m(g \<mapsto> B, g' \<mapsto> H)"
  by (rule ext) simp

lemma increment_by_eq:
  assumes "storage a = g # rest" "cells a g = Some cg" "alloc (dom (cells a)) = g'" "g' \<noteq> g"
  shows "increment_by alloc x a =
     Inr (a\<lparr>cells := (cells a)(g \<mapsto> \<lparr>first = Some g', second = x\<rparr>,
                              g' \<mapsto> \<lparr>first = Some g', second = 0\<rparr>),
            storage := g' # g # rest\<rparr>, Version (Some g'))"
proof -
  have d: "insert g (dom (cells a)) = dom (cells a)" using assms(2) by auto
  have e: "cg\<lparr>second := x, first := Some g'\<rparr> = \<lparr>first = Some g', second = x\<rparr>"
    by (cases cg) simp
  show ?thesis
    using assms d
    by (simp add: increment_by_def assign_second_def assign_first_def create_head_commit_def
        Let_def storage_begin_def fun_upd_thrice e)
qed

lemma walk_increment:
  "walk m p g ps d \<Longrightarrow> m g = Some \<lparr>first = Some g, second = 0\<rparr> \<Longrightarrow> g' \<notin> dom m
   \<Longrightarrow> m' = m(g \<mapsto> \<lparr>first = Some g', second = x\<rparr>,
                 g' \<mapsto> \<lparr>first = Some g', second = 0\<rparr>)
   \<Longrightarrow> \<exists>ps'. walk m' p g' ps' (d + x)"
proof (induction rule: walk.induct)
  case (walk_last m p c g cg)
  note m' = walk_last.prems(3)
  have gg': "g \<noteq> g'" using walk_last.prems by auto
  have g: "m' g = Some \<lparr>first = Some g', second = x\<rparr>" using gg' m' by simp
  have g': "m' g' = Some \<lparr>first = Some g', second = 0\<rparr>" using m' by simp
  have wg: "walk m' g g' [g] x"
    using walk.walk_last [OF g _ g'] by simp
  show ?case
  proof (cases "p = g")
    case True
    with walk_last.hyps(1) walk_last.prems(1) have "c = \<lparr>first = Some g, second = 0\<rparr>" by simp
    then have "second c = 0" by simp
    with wg True show ?thesis by auto
  next
    case False
    have pg': "p \<noteq> g'" using walk_last.hyps(1) walk_last.prems(2) by auto
    have p: "m' p = Some c" using False pg' walk_last.hyps(1) m' by simp
    have "first \<lparr>first = Some g', second = x\<rparr> \<noteq> Some g" using gg' by simp
    from walk.walk_step [OF p walk_last.hyps(2) g this wg] show ?thesis by blast
  qed
next
  case (walk_step m p c n cn g ps d)
  note m' = walk_step.prems(3)
  from walk_step.IH [OF walk_step.prems] obtain ps' where n': "walk m' n g' ps' (d + x)" ..
  have ng: "n \<noteq> g" using walk_step.hyps(3,4) walk_step.prems(1) by auto
  have pg: "p \<noteq> g" using walk_step.hyps(1,2) walk_step.prems(1) ng by auto
  have ng': "n \<noteq> g'" using walk_step.hyps(3) walk_step.prems(2) by auto
  have pg': "p \<noteq> g'" using walk_step.hyps(1) walk_step.prems(2) by auto
  have p: "m' p = Some c" using pg pg' walk_step.hyps(1) m' by simp
  have n: "m' n = Some cn" using ng ng' walk_step.hyps(3) m' by simp
  from walk.walk_step [OF p walk_step.hyps(2) n walk_step.hyps(4) n']
  have "walk m' p g' (p # ps') (second c + d + x)" by (simp add: add.assoc)
  then show ?case by blast
qed

lemma increment_by_well_formed:
  assumes fr: "fresh_allocator alloc" and wf: "well_formed a" and st: "storage a = g # rest"
  shows "\<exists>a' g'. increment_by alloc x a = Inr (a', Version (Some g'))
           \<and> well_formed a' \<and> storage a' = g' # storage a \<and> lastv a' = lastv a
           \<and> walk (cells a') g' g' [g'] 0
           \<and> (\<forall>p ps d. walk (cells a) p g ps d \<longrightarrow> (\<exists>ps'. walk (cells a') p g' ps' (d + x)))"
proof -
  from wf st obtain
    dist: "distinct (storage a)" and
    dm: "dom (cells a) = set (storage a)" and
    hd: "cells a g = Some \<lparr>first = Some g, second = 0\<rparr>" and
    ws: "\<forall>p\<in>set (storage a). \<exists>ps d. walk (cells a) p g ps d" and
    lv: "\<exists>p\<in>set (storage a). lastv a = Version (Some p)"
    by (auto elim!: well_formedD)
  define g' where "g' = alloc (dom (cells a))"
  have fin: "finite (dom (cells a))" using dm by simp
  with fr have new: "g' \<notin> dom (cells a)" unfolding fresh_allocator_def g'_def by blast
  have gg': "g' \<noteq> g" using new hd by auto
  let ?m' = "(cells a)(g \<mapsto> \<lparr>first = Some g', second = x\<rparr>, g' \<mapsto> \<lparr>first = Some g', second = 0\<rparr>)"
  let ?a' = "a\<lparr>cells := ?m', storage := g' # g # rest\<rparr>"
  have eq: "increment_by alloc x a = Inr (?a', Version (Some g'))"
    using increment_by_eq [OF st hd _ gg'] g'_def by simp
  have hd': "?m' g' = Some \<lparr>first = Some g', second = 0\<rparr>" by simp
  have wh: "walk ?m' g' g' [g'] 0"
    using walk.walk_last [where m = "?m'", OF hd' _ hd'] by simp
  have mono: "\<forall>p ps d. walk (cells a) p g ps d \<longrightarrow> (\<exists>ps'. walk ?m' p g' ps' (d + x))"
    using walk_increment [OF _ hd new refl] by blast
  have ws': "\<forall>p\<in>set (g' # g # rest). \<exists>ps d. walk ?m' p g' ps d"
  proof
    fix p assume "p \<in> set (g' # g # rest)"
    then have "p = g' \<or> p \<in> set (storage a)" using st by auto
    then show "\<exists>ps d. walk ?m' p g' ps d"
    proof
      assume "p = g'" with wh show ?thesis by blast
    next
      assume "p \<in> set (storage a)"
      with ws obtain ps d where "walk (cells a) p g ps d" by blast
      with mono show ?thesis by blast
    qed
  qed
  have dm': "dom ?m' = set (g' # g # rest)" using dm st by auto
  have dist': "distinct (g' # g # rest)" using dist st new dm by auto
  have lv': "\<exists>p\<in>set (g' # g # rest). lastv a = Version (Some p)" using lv st by auto
  have "well_formed ?a'"
    unfolding well_formed_def using dist' dm' hd' ws' lv' by simp
  with eq wh mono st show ?thesis by simp
qed

lemma reset_well_formed:
  assumes fr: "fresh_allocator alloc" and sub: "dom (cells a) \<subseteq> set (storage a)"
  shows "\<exists>a' p g ps. reset alloc v a = Inr (a', Version (Some g))
           \<and> well_formed a' \<and> storage a' = [g, p] \<and> lastv a' = Version (Some p)
           \<and> walk (cells a') p g ps v"
proof -
  have empty: "(\<lambda>p. if p \<in> set (storage a) then None else cells a p) = Map.empty"
    using sub by (auto simp: fun_eq_iff)
  define p where "p = alloc {}"
  let ?a3 = "a\<lparr>cells := [p \<mapsto> \<lparr>first = Some p, second = 0\<rparr>], storage := [p],
               lastv := Version (Some p)\<rparr>"
  have r: "reset alloc v a = increment_by alloc v ?a3"
    by (simp add: reset_def storage_clear_def create_head_commit_def Let_def empty p_def
        storage_begin_def)
  have hd: "cells ?a3 p = Some \<lparr>first = Some p, second = 0\<rparr>" by simp
  have w0: "walk (cells ?a3) p p [p] 0"
    using walk.walk_last [where m = "cells ?a3", OF hd _ hd] by simp
  have "\<exists>ps d. walk (cells ?a3) p p ps d" using w0 by blast
  then have wf3: "well_formed ?a3"
    unfolding well_formed_def by simp
  have st3: "storage ?a3 = p # []" by simp
  from increment_by_well_formed [OF fr wf3 st3, of v] obtain a' g' where a':
    "increment_by alloc v ?a3 = Inr (a', Version (Some g'))" "well_formed a'"
    "storage a' = g' # storage ?a3" "lastv a' = lastv ?a3"
    "\<forall>q qs d. walk (cells ?a3) q p qs d \<longrightarrow> (\<exists>ps'. walk (cells a') q g' ps' (d + v))"
    by blast
  from a'(5) w0 obtain ps' where "walk (cells a') p g' ps' (0 + v)" by blast
  then have "walk (cells a') p g' ps' v" by simp
  with a'(1-4) r show ?thesis by auto
qed

section \<open>The invariant of reachable archives\<close>

lemma diff_null: "diff_to_current a (Version None) = Some (Inl Null_iterator)"
  by (simp add: diff_to_current_def compute_diff_to_current.simps [of _ None])

lemma diff_dangling:
  "cells a p = None \<Longrightarrow> diff_to_current a (Version (Some p)) = Some (Inl Dangling_iterator)"
  by (simp add: diff_to_current_def compute_diff_to_current.simps [of _ "Some p"])

lemma diff_valid:
  assumes wf: "well_formed a" and v: "valid_version a s"
  obtains g rest p ps d a' where "storage a = g # rest" "s = Version (Some p)"
    "p \<in> set (storage a)" "walk (cells a) p g ps d"
    "diff_to_current a s = Some (Inr (a', d))" "well_formed a'" "storage a' = storage a"
    "lastv a' = lastv a" "compressed (cells a) (cells a')"
proof -
  from wf obtain g rest where st: "storage a = g # rest"
    and ws: "\<forall>p\<in>set (storage a). \<exists>ps d. walk (cells a) p g ps d"
    by (auto elim!: well_formedD)
  from v obtain p where s: "s = Version (Some p)" and p: "p \<in> set (storage a)"
    by (cases s) (auto simp: valid_version_def split: option.splits)
  from ws p obtain ps d where w: "walk (cells a) p g ps d" by blast
  from diff_well_formed [OF wf st w] obtain a' where
    "diff_to_current a (Version (Some p)) = Some (Inr (a', d))" "well_formed a'"
    "storage a' = storage a" "lastv a' = lastv a" "compressed (cells a) (cells a')" by blast
  with st s p w that show thesis by blast
qed

lemma lastv_valid: "well_formed a \<Longrightarrow> valid_version a (lastv a)"
  by (auto elim!: well_formedD simp: valid_version_def)

lemma clear_history_statements_eq:
  assumes "value a = Some (Inr (a1, x))" "value a1 = Some (Inr (a2, y))"
    "reset alloc y a2 = Inr (a3, s)"
  shows "clear_history_statements alloc a = Some (Inr a3)"
    and "clear_history alloc a = Some (Inl Missing_return)"
  using assms by (simp_all add: clear_history_def clear_history_statements_def)

lemma value_well_formed:
  assumes wf: "well_formed a"
  obtains g rest p ps d a' where "storage a = g # rest" "lastv a = Version (Some p)"
    "walk (cells a) p g ps d"
    "value a = Some (Inr (a', d))" "well_formed a'" "storage a' = storage a"
    "lastv a' = lastv a" "compressed (cells a) (cells a')"
  using diff_valid [OF wf lastv_valid [OF wf]] unfolding value_def by metis

lemma value_twice:
  assumes wf: "well_formed a" and v: "value a = Some (Inr (a1, x))"
  shows "\<exists>a2. value a1 = Some (Inr (a2, x)) \<and> well_formed a1 \<and> well_formed a2
    \<and> storage a1 = storage a \<and> storage a2 = storage a"
proof -
  from value_well_formed [OF wf] obtain g rest p ps d a' where a:
    "storage a = g # rest" "lastv a = Version (Some p)" "walk (cells a) p g ps d"
    "value a = Some (Inr (a', d))" "well_formed a'" "storage a' = storage a"
    "lastv a' = lastv a" "compressed (cells a) (cells a')" by blast
  from a(4) v have e: "a' = a1" "d = x" by simp_all
  from compressed_walk [OF a(3,8)] obtain ps' where w1: "walk (cells a1) p g ps' x"
    using e by blast
  from a e have st1: "storage a1 = g # rest" and lv1: "lastv a1 = Version (Some p)"
    and wf1: "well_formed a1" by simp_all
  from diff_well_formed [OF wf1 st1 w1] obtain a2 where
    "diff_to_current a1 (Version (Some p)) = Some (Inr (a2, x))" "well_formed a2"
    "storage a2 = storage a1" by blast
  with lv1 wf1 st1 a(1) show ?thesis by (auto simp: value_def)
qed

lemma clear_history_well_formed:
  assumes fr: "fresh_allocator alloc" and wf: "well_formed a" and re: "reachable alloc a"
  shows "\<exists>a1 x a3 p g ps. value a = Some (Inr (a1, x))
     \<and> clear_history_statements alloc a = Some (Inr a3)
     \<and> clear_history alloc a = Some (Inl Missing_return)
     \<and> reachable alloc a3
     \<and> well_formed a3 \<and> storage a3 = [g, p] \<and> lastv a3 = Version (Some p)
     \<and> walk (cells a3) p g ps x"
proof -
  from value_well_formed [OF wf] obtain a1 x where v1: "value a = Some (Inr (a1, x))"
    by metis
  from value_twice [OF wf v1] obtain a2 where v2: "value a1 = Some (Inr (a2, x))"
    and wf2: "well_formed a2" by blast
  from wf2 have "dom (cells a2) \<subseteq> set (storage a2)" by (auto elim!: well_formedD)
  from reset_well_formed [OF fr this, of x] obtain a3 p g ps where r:
    "reset alloc x a2 = Inr (a3, Version (Some g))" "well_formed a3" "storage a3 = [g, p]"
    "lastv a3 = Version (Some p)" "walk (cells a3) p g ps x" by blast
  have "reachable alloc a3"
    by (rule reachable_reset [OF reachable_value [OF reachable_value [OF re v1] v2] r(1)])
  with clear_history_statements_eq [OF v1 v2 r(1)] v1 r show ?thesis by blast
qed

lemma construct_well_formed:
  assumes fr: "fresh_allocator alloc"
  shows "\<exists>a p g ps. construct alloc v = Inr a \<and> well_formed a \<and> storage a = [g, p]
     \<and> lastv a = Version (Some p) \<and> walk (cells a) p g ps v"
proof -
  have "dom (cells (unconstructed :: 'a archived)) \<subseteq> set (storage (unconstructed :: 'a archived))"
    by (simp add: unconstructed_def)
  from reset_well_formed [OF fr this, of v] obtain a' p g ps where r:
    "reset alloc v unconstructed = Inr (a', Version (Some g))" "well_formed a'"
    "storage a' = [g, p]" "lastv a' = Version (Some p)" "walk (cells a') p g ps v" by blast
  from r(1) have "construct alloc v = Inr a'" by (simp add: construct_def)
  with r show ?thesis by blast
qed

lemma reachable_well_formed:
  assumes fr: "fresh_allocator alloc"
  shows "reachable alloc a \<Longrightarrow> well_formed a"
proof (induction rule: reachable.induct)
  case (reachable_construct v a)
  with construct_well_formed [OF fr, of v] show ?case by auto
next
  case (reachable_increment_by a d a' s)
  from reachable_increment_by.IH obtain g rest where "storage a = g # rest"
    by (auto elim!: well_formedD)
  from increment_by_well_formed [OF fr reachable_increment_by.IH this, of d]
    reachable_increment_by.hyps(2)
  show ?case by auto
next
  case (reachable_value a a' x)
  from value_twice [OF reachable_value.IH reachable_value.hyps(2)] show ?case by blast
next
  case (reachable_diff_to_current a s a' x)
  note wf = reachable_diff_to_current.IH
  obtain it where s: "s = Version it" by (cases s)
  show ?case
  proof (cases it)
    case None
    with s reachable_diff_to_current.hyps(2) diff_null [of a] show ?thesis by simp
  next
    case (Some p)
    show ?thesis
    proof (cases "cells a p")
      case None
      from diff_dangling [OF this] s Some reachable_diff_to_current.hyps(2)
      show ?thesis by simp
    next
      case (Some c)
      then have "p \<in> set (storage a)" using wf by (auto elim!: well_formedD)
      then have "valid_version a s" using s \<open>it = Some p\<close> by (simp add: valid_version_def)
      from diff_valid [OF wf this] reachable_diff_to_current.hyps(2)
      show ?thesis by (metis Inr_inject option.inject prod.inject)
    qed
  qed
next
  case (reachable_reset a v a' s)
  from reachable_reset.IH have "dom (cells a) \<subseteq> set (storage a)"
    by (auto elim!: well_formedD)
  from reset_well_formed [OF fr this, of v] reachable_reset.hyps(2)
  show ?case by auto
qed

section \<open>Queries and increments\<close>

lemma diff_path:
  assumes w: "walk (cells a) p g ps d"
  shows "\<exists>a'. diff_to_current a (Version (Some p)) = Some (Inr (a', d))
     \<and> (\<forall>q\<in>set ps. \<exists>qs e. walk (cells a) q g qs e
            \<and> cells a' q = Some \<lparr>first = Some g, second = e\<rparr>)
     \<and> (\<forall>q. q \<notin> set ps \<longrightarrow> cells a' q = cells a q)"
proof -
  from compute_walk [OF w] obtain m' where m':
    "compute_diff_to_current (cells a) (Some p) = Some (Inr m')"
    "\<forall>q\<in>set ps. \<exists>qs e. walk (cells a) q g qs e \<and> m' q = Some \<lparr>first = Some g, second = e\<rparr>"
    "\<forall>q. q \<notin> set ps \<longrightarrow> m' q = cells a q" by blast
  have p_in: "p \<in> set ps" using w by (cases rule: walk.cases) auto
  from m'(2) p_in obtain qs e where pe: "walk (cells a) p g qs e"
    "m' p = Some \<lparr>first = Some g, second = e\<rparr>" by blast
  from walk_determ [OF w pe(1)] pe(2) have "m' p = Some \<lparr>first = Some g, second = d\<rparr>"
    by simp
  from diff_to_current_eq [OF m'(1) this]
  have "diff_to_current a (Version (Some p)) = Some (Inr (a\<lparr>cells := m'\<rparr>, d))" by simp
  with m'(2,3) show ?thesis by simp
qed

lemma purity:
  assumes wf: "well_formed a" and s: "valid_version a s" and t: "valid_version a t"
  shows "\<exists>a1 x a3 y a4. diff_to_current a s = Some (Inr (a1, x))
     \<and> diff_to_current a t = Some (Inr (a3, y))
     \<and> diff_to_current a1 t = Some (Inr (a4, y))
     \<and> well_formed a1 \<and> storage a1 = storage a \<and> lastv a1 = lastv a"
proof -
  from diff_valid [OF wf s] obtain a1 x where a1:
    "diff_to_current a s = Some (Inr (a1, x))" "well_formed a1" "storage a1 = storage a"
    "lastv a1 = lastv a" "compressed (cells a) (cells a1)" by metis
  from diff_valid [OF wf t] obtain g rest p ps y a3 where a3:
    "storage a = g # rest" "t = Version (Some p)" "walk (cells a) p g ps y"
    "diff_to_current a t = Some (Inr (a3, y))" by metis
  from compressed_walk [OF a3(3) a1(5)] obtain ps' where "walk (cells a1) p g ps' y" ..
  from diff_well_formed [OF a1(2) _ this] a1(3) a3(1) obtain a4 where
    "diff_to_current a1 (Version (Some p)) = Some (Inr (a4, y))" by auto
  with a1 a3 show ?thesis by auto
qed

lemma valid_version_storage:
  "storage a' = storage a \<Longrightarrow> valid_version a' s = valid_version a s"
  by (simp add: valid_version_def split: option.split)

lemma increment_shifts:
  assumes fr: "fresh_allocator alloc" and wf: "well_formed a" and s: "valid_version a s"
  shows "\<exists>a0 x a1 s1 a2. diff_to_current a s = Some (Inr (a0, x))
     \<and> increment_by alloc d a = Inr (a1, s1)
     \<and> well_formed a1 \<and> valid_version a1 s \<and> lastv a1 = lastv a \<and> s1 = current a1
     \<and> diff_to_current a1 s = Some (Inr (a2, x + d))"
proof -
  from diff_valid [OF wf s] obtain g rest p ps x a0 where a0:
    "storage a = g # rest" "s = Version (Some p)" "p \<in> set (storage a)"
    "walk (cells a) p g ps x" "diff_to_current a s = Some (Inr (a0, x))" by metis
  from increment_by_well_formed [OF fr wf a0(1), of d] obtain a1 g' where a1:
    "increment_by alloc d a = Inr (a1, Version (Some g'))" "well_formed a1"
    "storage a1 = g' # storage a" "lastv a1 = lastv a"
    "\<forall>p ps e. walk (cells a) p g ps e \<longrightarrow> (\<exists>ps'. walk (cells a1) p g' ps' (e + d))"
    by blast
  from a1(5) a0(4) obtain ps' where "walk (cells a1) p g' ps' (x + d)" by blast
  from diff_well_formed [OF a1(2,3) this] obtain a2 where
    a2: "diff_to_current a1 (Version (Some p)) = Some (Inr (a2, x + d))" by blast
  have v: "valid_version a1 s" using a0(2,3) a1(3) by (simp add: valid_version_def)
  have c: "Version (Some g') = current a1" using a1(3) by (simp add: current_def)
  from a0(5) a1(1,2,4) v c a2 a0(2) show ?thesis by auto
qed

lemma increment_all_append:
  "increment_all alloc (xs @ ys) a =
     then_do (increment_all alloc xs a) (\<lambda>(a1, vs).
     then_do (increment_all alloc ys a1) (\<lambda>(a2, ws). Inr (a2, vs @ ws)))"
proof (induction xs arbitrary: a)
  case Nil
  show ?case by (cases "increment_all alloc ys a") auto
next
  case (Cons x xs)
  show ?case
  proof (cases "increment_by alloc x a")
    case (Inl e)
    then show ?thesis by simp
  next
    case (Inr r)
    obtain a1 s where r: "r = (a1, s)" by (cases r)
    show ?thesis
    proof (cases "increment_all alloc xs a1")
      case (Inl e)
      with Inr r Cons.IH [of a1] show ?thesis by simp
    next
      case (Inr r2)
      obtain a2 vs where r2: "r2 = (a2, vs)" by (cases r2)
      show ?thesis
      proof (cases "increment_all alloc ys a2")
        case (Inl e)
        with \<open>increment_by alloc x a = Inr r\<close> r Inr r2 Cons.IH [of a1] show ?thesis by simp
      next
        case (Inr r3)
        obtain a3 ws where "r3 = (a3, ws)" by (cases r3)
        with Inr \<open>increment_by alloc x a = Inr r\<close> r \<open>increment_all alloc xs a1 = Inr r2\<close> r2
          Cons.IH [of a1] show ?thesis by simp
      qed
    qed
  qed
qed

lemma increment_all_walk:
  assumes fr: "fresh_allocator alloc"
  shows "well_formed a \<Longrightarrow> storage a = g # rest \<Longrightarrow>
    \<exists>ak vs gk restk. increment_all alloc ds a = Inr (ak, vs)
      \<and> well_formed ak \<and> storage ak = gk # restk \<and> lastv ak = lastv a
      \<and> length vs = length ds \<and> (ds \<noteq> [] \<longrightarrow> last vs = current ak)
      \<and> (\<forall>p ps d. walk (cells a) p g ps d
             \<longrightarrow> (\<exists>ps'. walk (cells ak) p gk ps' (d + sum_list ds)))"
proof (induction ds arbitrary: a g rest)
  case Nil
  then show ?case by auto
next
  case (Cons x ds)
  from increment_by_well_formed [OF fr Cons.prems, of x] obtain a1 g' where a1:
    "increment_by alloc x a = Inr (a1, Version (Some g'))" "well_formed a1"
    "storage a1 = g' # storage a" "lastv a1 = lastv a"
    "\<forall>p ps d. walk (cells a) p g ps d \<longrightarrow> (\<exists>ps'. walk (cells a1) p g' ps' (d + x))"
    by blast
  from Cons.IH [OF a1(2,3)] obtain ak vs gk restk where ak:
    "increment_all alloc ds a1 = Inr (ak, vs)" "well_formed ak" "storage ak = gk # restk"
    "lastv ak = lastv a1" "length vs = length ds" "ds \<noteq> [] \<longrightarrow> last vs = current ak"
    "\<forall>p ps d. walk (cells a1) p g' ps d
        \<longrightarrow> (\<exists>ps'. walk (cells ak) p gk ps' (d + sum_list ds))"
    by blast
  have run: "increment_all alloc (x # ds) a = Inr (ak, Version (Some g') # vs)"
    using a1(1) ak(1) by simp
  have lst: "last (Version (Some g') # vs) = current ak"
  proof (cases ds)
    case Nil
    with ak(1,5) a1(3) show ?thesis by (simp add: current_def)
  next
    case (Cons y ys)
    with ak(5,6) show ?thesis by auto
  qed
  have shift: "\<forall>p ps d. walk (cells a) p g ps d
        \<longrightarrow> (\<exists>ps'. walk (cells ak) p gk ps' (d + sum_list (x # ds)))"
  proof (intro allI impI)
    fix p ps d assume "walk (cells a) p g ps d"
    with a1(5) obtain ps1 where "walk (cells a1) p g' ps1 (d + x)" by blast
    with ak(7) obtain ps2 where "walk (cells ak) p gk ps2 (d + x + sum_list ds)" by blast
    then show "\<exists>ps'. walk (cells ak) p gk ps' (d + sum_list (x # ds))"
      by (auto simp: add.assoc)
  qed
  from run ak(2,3,4,5) a1(4) lst shift show ?case by auto
qed

lemma head_walk:
  assumes "well_formed a" "storage a = g # rest"
  shows "walk (cells a) g g [g] 0"
proof -
  from assms have hd: "cells a g = Some \<lparr>first = Some g, second = 0\<rparr>"
    by (auto elim!: well_formedD)
  from walk.walk_last [where m = "cells a", OF hd _ hd] show ?thesis by simp
qed

section \<open>Concrete allocators and archives\<close>

lemma bump_fresh: "fresh_allocator bump"
  unfolding fresh_allocator_def bump_def
proof (intro allI impI)
  fix S :: "nat set" assume f: "finite S"
  show "(if S = {} then 0 else Max S + 1) \<notin> S"
  proof (cases "S = {}")
    case True then show ?thesis by simp
  next
    case False
    have "Max S + 1 \<notin> S"
    proof
      assume "Max S + 1 \<in> S"
      from Max_ge [OF f this] show False by simp
    qed
    with False show ?thesis by simp
  qed
qed

lemma lowest_free_fresh: "fresh_allocator lowest_free"
  unfolding fresh_allocator_def lowest_free_def
proof (intro allI impI)
  fix S :: "nat set" assume "finite S"
  then have "\<exists>p. p \<notin> S" by (rule ex_new_if_finite [rotated]) simp
  then show "(LEAST p. p \<notin> S) \<notin> S" by (rule LeastI_ex)
qed

lemma lowest_free_empty: "lowest_free {} = 0"
  by (simp add: lowest_free_def)

lemma lowest_free_0: "lowest_free {0} = 1"
  unfolding lowest_free_def by (rule Least_equality) auto

lemmas eval_defs = construct_def reset_def storage_clear_def create_head_commit_def
  increment_by_def assign_first_def assign_second_def storage_begin_def unconstructed_def
  Let_def fun_upd_thrice numeral_2_eq_2 numeral_3_eq_3

lemma construct_bump_13: "construct bump 13 = Inr archive_13"
  by (simp add: eval_defs bump_def archive_13_def)

lemma increment_13_3:
  "increment_by bump 3 archive_13 =
     Inr (\<lparr>cells = [0 \<mapsto> \<lparr>first = Some 1, second = 13\<rparr>, 1 \<mapsto> \<lparr>first = Some 2, second = 3\<rparr>,
                    2 \<mapsto> \<lparr>first = Some 2, second = 0\<rparr>],
           storage = [2, 1, 0], lastv = Version (Some 0)\<rparr>, Version (Some 2))"
  by (simp add: eval_defs bump_def archive_13_def)

lemma increment_13_3_4:
  "increment_by bump 4
     \<lparr>cells = [0 \<mapsto> \<lparr>first = Some 1, second = 13\<rparr>, 1 \<mapsto> \<lparr>first = Some 2, second = 3\<rparr>,
               2 \<mapsto> \<lparr>first = Some 2, second = 0::int\<rparr>],
      storage = [2, 1, 0], lastv = Version (Some 0)\<rparr>
   = Inr (archive_13_3_4, Version (Some 3))"
  by (simp add: eval_defs bump_def archive_13_3_4_def)

lemma reachable_archive_13: "reachable bump archive_13"
  using construct_bump_13 by (rule reachable_construct)

lemma reachable_archive_13_3_4: "reachable bump archive_13_3_4"
  by (rule reachable_increment_by [OF reachable_increment_by [OF reachable_archive_13 increment_13_3]
        increment_13_3_4])

lemma construct_lowest_free_13: "construct lowest_free 13 = Inr archive_13"
  by (simp add: eval_defs lowest_free_empty lowest_free_0 archive_13_def)

lemma reset_eq:
  assumes "dom (cells a) \<subseteq> set (storage a)"
  shows "reset alloc v a =
     increment_by alloc v
       (a\<lparr>cells := [alloc {} \<mapsto> \<lparr>first = Some (alloc {}), second = 0\<rparr>],
          storage := [alloc {}], lastv := Version (Some (alloc {}))\<rparr>)"
proof -
  have "(\<lambda>p. if p \<in> set (storage a) then None else cells a p) = Map.empty"
    using assms by (auto simp: fun_eq_iff)
  then show ?thesis
    by (simp add: reset_def storage_clear_def create_head_commit_def Let_def storage_begin_def)
qed

lemma reset_lowest_free_7: "reset lowest_free 7 archive_13 = Inr (archive_7, Version (Some 1))"
proof -
  have "dom (cells archive_13) \<subseteq> set (storage archive_13)"
    by (simp add: archive_13_def)
  from reset_eq [OF this, of lowest_free 7] show ?thesis
    by (simp add: lowest_free_empty lowest_free_0 archive_13_def archive_7_def
        increment_by_def assign_first_def assign_second_def create_head_commit_def
        storage_begin_def Let_def fun_upd_thrice)
qed

lemma diff_archive_7_head:
  "diff_to_current archive_7 (Version (Some 1)) = Some (Inr (archive_7, 0))"
proof -
  have "compute_diff_to_current (cells archive_7) (Some 1) = Some (Inr (cells archive_7))"
    by (rule compute_head [where c = "\<lparr>first = Some 1, second = 0\<rparr>"
          and cg = "\<lparr>first = Some 1, second = 0\<rparr>" and g = 1])
       (simp_all add: archive_7_def)
  then show ?thesis
    by (simp add: diff_to_current_def) (simp add: archive_7_def)
qed

section \<open>The claims\<close>

lemma value_of_chain:
  assumes "well_formed a" "storage a = g # rest" "lastv a = Version (Some p)"
    "walk (cells a) p g ps x"
  shows "\<exists>r. value a = Some (Inr (r, x))"
  using diff_well_formed [OF assms(1,2,4)] assms(3) by (auto simp: value_def)

lemma reset_bump_7: "reset bump 7 archive_13_3_4 = Inr (archive_7, Version (Some 1))"
proof -
  have "dom (cells archive_13_3_4) \<subseteq> set (storage archive_13_3_4)"
    by (simp add: archive_13_3_4_def)
  from reset_eq [OF this, of bump 7] show ?thesis
    by (simp add: bump_def archive_13_3_4_def archive_7_def
        increment_by_def assign_first_def assign_second_def create_head_commit_def
        storage_begin_def Let_def fun_upd_thrice)
qed

lemma reset_bump_13: "reset bump 13 archive_13 = Inr (archive_13, Version (Some 1))"
proof -
  have "dom (cells archive_13) \<subseteq> set (storage archive_13)"
    by (simp add: archive_13_def)
  from reset_eq [OF this, of bump 13] show ?thesis
    by (simp add: bump_def archive_13_def
        increment_by_def assign_first_def assign_second_def create_head_commit_def
        storage_begin_def Let_def fun_upd_thrice)
qed

lemma reachable_archive_7: "reachable bump archive_7"
  using reachable_archive_13_3_4 reset_bump_7 by (rule reachable_reset)

lemma value_archive_13: "value archive_13 = Some (Inr (archive_13, 13))"
proof -
  have "compute_diff_to_current (cells archive_13) (Some 0) = Some (Inr (cells archive_13))"
    by (rule compute_head [where c = "\<lparr>first = Some 1, second = 13\<rparr>"
          and cg = "\<lparr>first = Some 1, second = 0\<rparr>" and g = 1])
       (simp_all add: archive_13_def)
  then show ?thesis
    by (simp add: value_def diff_to_current_def) (simp add: archive_13_def)
qed

text \<open>
  C1. Snapshot diff. Construct an archive with any initial value \<open>v\<close> and apply the
  increments \<open>ds\<close> with \<open>increment_by\<close>. For the version captured after the first \<open>i\<close>
  increments (by \<open>current()\<close> at that point, which is also the version the \<open>i\<close>-th
  \<open>increment_by\<close> returned), \<open>diff_to_current\<close> on the final archive returns the sum of
  the remaining increments, \<open>0\<close> when none remain.
\<close>

theorem snapshot_diff_is_sum_of_later_increments:
  assumes "fresh_allocator alloc"
  shows "\<exists>a0 ai vs ak ws r.
       construct alloc v = Inr a0
     \<and> increment_all alloc (take i ds) a0 = Inr (ai, vs)
     \<and> increment_all alloc (drop i ds) ai = Inr (ak, ws)
     \<and> increment_all alloc ds a0 = Inr (ak, vs @ ws)
     \<and> (take i ds \<noteq> [] \<longrightarrow> last vs = current ai)
     \<and> diff_to_current ak (current ai) = Some (Inr (r, sum_list (drop i ds)))"
proof -
  from construct_well_formed [OF assms, of v] obtain a0 p g where a0:
    "construct alloc v = Inr a0" "well_formed a0" "storage a0 = [g, p]" by blast
  from increment_all_walk [OF assms a0(2,3), of "take i ds"] obtain ai vs gi resti where ai:
    "increment_all alloc (take i ds) a0 = Inr (ai, vs)" "well_formed ai"
    "storage ai = gi # resti" "take i ds \<noteq> [] \<longrightarrow> last vs = current ai" by blast
  from increment_all_walk [OF assms ai(2,3), of "drop i ds"] obtain ak ws gk restk where ak:
    "increment_all alloc (drop i ds) ai = Inr (ak, ws)" "well_formed ak"
    "storage ak = gk # restk"
    "\<forall>p ps d. walk (cells ai) p gi ps d
        \<longrightarrow> (\<exists>ps'. walk (cells ak) p gk ps' (d + sum_list (drop i ds)))" by blast
  from head_walk [OF ai(2,3)] ak(4) obtain ps' where
    "walk (cells ak) gi gk ps' (0 + sum_list (drop i ds))" by blast
  then have "walk (cells ak) gi gk ps' (sum_list (drop i ds))" by simp
  from diff_well_formed [OF ak(2,3) this] obtain r where
    "diff_to_current ak (Version (Some gi)) = Some (Inr (r, sum_list (drop i ds)))" by blast
  then have d: "diff_to_current ak (current ai) = Some (Inr (r, sum_list (drop i ds)))"
    using ai(3) by (simp add: current_def)
  have "increment_all alloc (take i ds @ drop i ds) a0 = Inr (ak, vs @ ws)"
    unfolding increment_all_append using ai(1) ak(1) by simp
  then have "increment_all alloc ds a0 = Inr (ak, vs @ ws)" by simp
  with a0(1) ai(1,4) ak(1) d show ?thesis by blast
qed

theorem snapshot_diff_is_sum_of_later_increments_witness:
  "fresh_allocator bump \<and> take 1 [3, 4, 7 :: int] \<noteq> []
   \<and> (\<exists>a0 ai vs ak ws r.
       construct bump (13 :: int) = Inr a0
     \<and> increment_all bump (take 1 [3, 4, 7]) a0 = Inr (ai, vs)
     \<and> increment_all bump (drop 1 [3, 4, 7]) ai = Inr (ak, ws)
     \<and> increment_all bump [3, 4, 7] a0 = Inr (ak, vs @ ws)
     \<and> (take 1 [3, 4, 7 :: int] \<noteq> [] \<longrightarrow> last vs = current ai)
     \<and> diff_to_current ak (current ai) = Some (Inr (r, sum_list (drop 1 [3, 4, 7]))))"
  by (intro conjI)
    (rule bump_fresh, simp, rule snapshot_diff_is_sum_of_later_increments [OF bump_fresh])

text \<open>
  C2. Increment accumulation. After constructing with \<open>v\<close> and applying the increments
  \<open>ds\<close>, \<open>value()\<close> returns \<open>v + d1 + ... + dk\<close>; and on every reachable archive,
  \<open>value()\<close> right after \<open>increment_by(d)\<close> returns what \<open>value()\<close> returned right
  before, plus \<open>d\<close>.
\<close>

theorem value_accumulates_increments:
  assumes "fresh_allocator alloc"
  shows "(\<exists>a0 ak vs r.
            construct alloc v = Inr a0
          \<and> increment_all alloc ds a0 = Inr (ak, vs)
          \<and> value ak = Some (Inr (r, v + sum_list ds)))
       \<and> (reachable alloc a \<longrightarrow>
           (\<exists>a0 x a1 s a2.
               value a = Some (Inr (a0, x))
             \<and> increment_by alloc d a0 = Inr (a1, s)
             \<and> value a1 = Some (Inr (a2, x + d))))"
proof
  from construct_well_formed [OF assms, of v] obtain a0 p g ps where a0:
    "construct alloc v = Inr a0" "well_formed a0" "storage a0 = [g, p]"
    "lastv a0 = Version (Some p)" "walk (cells a0) p g ps v" by blast
  from increment_all_walk [OF assms a0(2,3), of ds] obtain ak vs gk restk where ak:
    "increment_all alloc ds a0 = Inr (ak, vs)" "well_formed ak"
    "storage ak = gk # restk" "lastv ak = lastv a0"
    "\<forall>p ps d. walk (cells a0) p g ps d
        \<longrightarrow> (\<exists>ps'. walk (cells ak) p gk ps' (d + sum_list ds))" by blast
  from ak(5) a0(5) obtain ps' where w: "walk (cells ak) p gk ps' (v + sum_list ds)" by blast
  from ak(4) a0(4) have "lastv ak = Version (Some p)" by simp
  from value_of_chain [OF ak(2,3) this w] a0(1) ak(1)
  show "\<exists>a0 ak vs r. construct alloc v = Inr a0 \<and> increment_all alloc ds a0 = Inr (ak, vs)
          \<and> value ak = Some (Inr (r, v + sum_list ds))" by blast
next
  show "reachable alloc a \<longrightarrow>
           (\<exists>a0 x a1 s a2.
               value a = Some (Inr (a0, x))
             \<and> increment_by alloc d a0 = Inr (a1, s)
             \<and> value a1 = Some (Inr (a2, x + d)))"
  proof
    assume "reachable alloc a"
    from reachable_well_formed [OF assms this] have wf: "well_formed a" .
    from value_well_formed [OF wf] obtain a0 x where v0: "value a = Some (Inr (a0, x))"
      by metis
    from value_twice [OF wf v0] obtain a0' where v1: "value a0 = Some (Inr (a0', x))"
      and wf0: "well_formed a0" by blast
    from increment_shifts [OF assms wf0 lastv_valid [OF wf0], of d] obtain b x' a1 s1 a2 where i:
      "diff_to_current a0 (lastv a0) = Some (Inr (b, x'))"
      "increment_by alloc d a0 = Inr (a1, s1)" "lastv a1 = lastv a0"
      "diff_to_current a1 (lastv a0) = Some (Inr (a2, x' + d))" by blast
    from i(1) v1 have "x' = x" by (simp add: value_def)
    with i(3,4) have "value a1 = Some (Inr (a2, x + d))" by (simp add: value_def)
    with v0 i(2) show "\<exists>a0 x a1 s a2. value a = Some (Inr (a0, x))
        \<and> increment_by alloc d a0 = Inr (a1, s) \<and> value a1 = Some (Inr (a2, x + d))"
      by blast
  qed
qed

theorem value_accumulates_increments_witness:
  "fresh_allocator bump \<and> reachable bump archive_13_3_4
   \<and> (\<exists>a0 ak vs r.
            construct bump (13 :: int) = Inr a0
          \<and> increment_all bump [3, 4, 7] a0 = Inr (ak, vs)
          \<and> value ak = Some (Inr (r, 13 + sum_list [3, 4, 7])))
   \<and> (\<exists>a0 x a1 s a2.
               value archive_13_3_4 = Some (Inr (a0, x))
             \<and> increment_by bump 7 a0 = Inr (a1, s)
             \<and> value a1 = Some (Inr (a2, x + 7)))"
  using value_accumulates_increments [OF bump_fresh, of 13 "[3, 4, 7]" archive_13_3_4 7]
    bump_fresh reachable_archive_13_3_4
  by blast

text \<open>
  C3 as stated: a query on an invalid version fails with an error instead of returning
  a value. It does not: with an allocator that gives out the lowest unused address, the
  version captured from \<open>archived<int> a(13)\<close> by \<open>current()\<close> refers to node 1;
  \<open>reset(7)\<close> destroys the nodes 0 and 1 and builds its two commits in the nodes 0 and 1
  again; the query on the old version then returns 0.
\<close>

theorem stale_version_returns_value:
  "fresh_allocator lowest_free
   \<and> construct lowest_free 13 = Inr archive_13
   \<and> current archive_13 = Version (Some 1)
   \<and> reset lowest_free 7 archive_13 = Inr (archive_7, Version (Some 1))
   \<and> diff_to_current archive_7 (Version (Some 1)) = Some (Inr (archive_7, 0))"
  by (intro conjI)
    (rule lowest_free_fresh, rule construct_lowest_free_13, simp add: current_def storage_begin_def archive_13_def,
     rule reset_lowest_free_7, rule diff_archive_7_head)

text \<open>
  C3, amended. \<open>diff_to_current\<close> tests nothing. On a version that refers to no node of
  the archive's list (a default-constructed one, or one of a discarded chain whose address
  is not in use again), it dereferences the null or dangling iterator, which is undefined
  behaviour and no exception, and returns no value. On every version that refers to a node
  of the list, also one captured before a \<open>reset\<close>, it returns a value (the theorem of C7
  shows that).
\<close>

theorem invalid_version_is_dereferenced:
  assumes "fresh_allocator alloc" "reachable alloc a" "\<not> valid_version a s"
  shows "diff_to_current a s =
     Some (Inl (if archive_iterator s = None then Null_iterator else Dangling_iterator))"
proof -
  from reachable_well_formed [OF assms(1,2)] have wf: "well_formed a" .
  obtain it where s: "s = Version it" by (cases s)
  show ?thesis
  proof (cases it)
    case None
    with s diff_null [of a] show ?thesis by simp
  next
    case (Some p)
    with s assms(3) have "p \<notin> set (storage a)" by (simp add: valid_version_def)
    with wf have "cells a p = None" by (auto elim!: well_formedD)
    from diff_dangling [OF this] s Some show ?thesis by simp
  qed
qed

theorem invalid_version_is_dereferenced_witness:
  "fresh_allocator bump \<and> reachable bump archive_7
   \<and> \<not> valid_version archive_7 (Version (Some 3))
   \<and> \<not> valid_version archive_7 (Version None)
   \<and> diff_to_current archive_7 (Version (Some 3)) = Some (Inl Dangling_iterator)
   \<and> diff_to_current archive_7 (Version None) = Some (Inl Null_iterator)"
proof -
  have v3: "\<not> valid_version archive_7 (Version (Some 3))"
    by (simp add: valid_version_def archive_7_def)
  have v0: "\<not> valid_version archive_7 (Version None)"
    by (simp add: valid_version_def)
  from invalid_version_is_dereferenced [OF bump_fresh reachable_archive_7 v3]
    invalid_version_is_dereferenced [OF bump_fresh reachable_archive_7 v0]
    bump_fresh reachable_archive_7 v3 v0
  show ?thesis by simp
qed

text \<open>
  C4 says that \<open>clear_history()\<close> returns a fresh, valid version. The body of
  \<open>clear_history\<close> has no \<open>return\<close> statement: on the archive of
  \<open>archived<int> a(13)\<close> the call gets through its two statements, drops the version
  \<open>reset\<close> returned, and reaches the closing brace. It returns no version.
\<close>

theorem clear_history_returns_no_version:
  "clear_history bump archive_13 = Some (Inl Missing_return)"
  using value_archive_13 value_archive_13 reset_bump_13
  by (rule clear_history_statements_eq(2))

text \<open>
  C5. \<open>value()\<close> returns \<open>v\<close> right after constructing with \<open>v\<close> and right after
  \<open>reset(v)\<close> on any reachable archive; the constructor is \<open>reset\<close> on the archive with
  value-initialised members.
\<close>

theorem value_after_construct_and_reset:
  assumes "fresh_allocator alloc"
  shows "(\<exists>a0 r. construct alloc v = Inr a0 \<and> value a0 = Some (Inr (r, v)))
       \<and> (reachable alloc a \<longrightarrow>
            (\<exists>a1 s r. reset alloc v a = Inr (a1, s) \<and> value a1 = Some (Inr (r, v))))
       \<and> construct alloc v =
            then_do (reset alloc v unconstructed) (\<lambda>(a, returned). Inr a)"
proof (intro conjI)
  from construct_well_formed [OF assms, of v] obtain a0 p g ps where a0:
    "construct alloc v = Inr a0" "well_formed a0" "storage a0 = [g, p]"
    "lastv a0 = Version (Some p)" "walk (cells a0) p g ps v" by blast
  from value_of_chain [OF a0(2,3,4,5)] a0(1)
  show "\<exists>a0 r. construct alloc v = Inr a0 \<and> value a0 = Some (Inr (r, v))" by blast
next
  show "reachable alloc a \<longrightarrow>
          (\<exists>a1 s r. reset alloc v a = Inr (a1, s) \<and> value a1 = Some (Inr (r, v)))"
  proof
    assume "reachable alloc a"
    from reachable_well_formed [OF assms this] have "dom (cells a) \<subseteq> set (storage a)"
      by (auto elim!: well_formedD)
    from reset_well_formed [OF assms this, of v] obtain a1 p g ps where a1:
      "reset alloc v a = Inr (a1, Version (Some g))" "well_formed a1" "storage a1 = [g, p]"
      "lastv a1 = Version (Some p)" "walk (cells a1) p g ps v" by blast
    from value_of_chain [OF a1(2,3,4,5)] a1(1)
    show "\<exists>a1 s r. reset alloc v a = Inr (a1, s) \<and> value a1 = Some (Inr (r, v))" by blast
  qed
next
  show "construct alloc v = then_do (reset alloc v unconstructed) (\<lambda>(a, returned). Inr a)"
    by (simp add: construct_def)
qed

theorem value_after_construct_and_reset_witness:
  "fresh_allocator bump \<and> reachable bump archive_13_3_4
   \<and> (\<exists>a0 r. construct bump (7 :: int) = Inr a0 \<and> value a0 = Some (Inr (r, 7)))
   \<and> (\<exists>a1 s r. reset bump 7 archive_13_3_4 = Inr (a1, s) \<and> value a1 = Some (Inr (r, 7)))"
  using value_after_construct_and_reset [OF bump_fresh, of 7 archive_13_3_4]
    bump_fresh reachable_archive_13_3_4
  by blast

text \<open>
  C6. Path compression. A query on a valid version of a reachable archive returns the
  diff of its commit, and afterwards every commit visited on the way to the head has the
  head as its successor and its own diff to the head as its \<open>second\<close>; the head keeps
  itself as successor and the diff \<open>0\<close>.
\<close>

theorem compression_rewrites_visited_path:
  assumes "fresh_allocator alloc" "reachable alloc a" "valid_version a s"
  shows "\<exists>g p ps x a'.
       storage_begin a = Some g \<and> s = Version (Some p)
     \<and> walk (cells a) p g ps x
     \<and> diff_to_current a s = Some (Inr (a', x))
     \<and> (\<forall>q\<in>set ps. \<exists>qs e. walk (cells a) q g qs e
            \<and> cells a' q = Some \<lparr>first = Some g, second = e\<rparr>)
     \<and> cells a' g = Some \<lparr>first = Some g, second = 0\<rparr>"
proof -
  from reachable_well_formed [OF assms(1,2)] have wf: "well_formed a" .
  from diff_valid [OF wf assms(3)] obtain g rest p ps x where v:
    "storage a = g # rest" "s = Version (Some p)" "walk (cells a) p g ps x" by metis
  from wf v(1) have hd: "cells a g = Some \<lparr>first = Some g, second = 0\<rparr>"
    by (auto elim!: well_formedD)
  from diff_path [OF v(3)] obtain a' where a':
    "diff_to_current a (Version (Some p)) = Some (Inr (a', x))"
    "\<forall>q\<in>set ps. \<exists>qs e. walk (cells a) q g qs e
        \<and> cells a' q = Some \<lparr>first = Some g, second = e\<rparr>"
    "\<forall>q. q \<notin> set ps \<longrightarrow> cells a' q = cells a q" by blast
  have hd': "cells a' g = Some \<lparr>first = Some g, second = 0\<rparr>"
  proof (cases "g \<in> set ps")
    case True
    with a'(2) obtain qs e where e: "walk (cells a) g g qs e"
      "cells a' g = Some \<lparr>first = Some g, second = e\<rparr>" by blast
    from walk_self [OF hd _ e(1)] e(2) show ?thesis by simp
  next
    case False
    with a'(3) hd show ?thesis by simp
  qed
  from v a' hd' show ?thesis by auto
qed

theorem compression_rewrites_visited_path_witness:
  "fresh_allocator bump \<and> reachable bump archive_13_3_4
   \<and> valid_version archive_13_3_4 (Version (Some 0))
   \<and> (\<exists>g p ps x a'.
       storage_begin archive_13_3_4 = Some g \<and> Version (Some 0) = Version (Some p)
     \<and> walk (cells archive_13_3_4) p g ps x
     \<and> diff_to_current archive_13_3_4 (Version (Some 0)) = Some (Inr (a', x))
     \<and> (\<forall>q\<in>set ps. \<exists>qs e. walk (cells archive_13_3_4) q g qs e
            \<and> cells a' q = Some \<lparr>first = Some g, second = e\<rparr>)
     \<and> cells a' g = Some \<lparr>first = Some g, second = 0\<rparr>)"
proof -
  have v: "valid_version archive_13_3_4 (Version (Some 0))"
    by (simp add: valid_version_def archive_13_3_4_def)
  show ?thesis
    by (intro conjI)
      (rule bump_fresh, rule reachable_archive_13_3_4, rule v,
       rule compression_rewrites_visited_path [OF bump_fresh reachable_archive_13_3_4 v])
qed

text \<open>
  C7. Queries are observationally pure. On a reachable archive, for valid versions \<open>s\<close>
  and \<open>t\<close>: the query on \<open>s\<close> returns the same value when repeated at once; the path
  compression of the query on \<open>s\<close>, and that of a \<open>value()\<close> call, change neither what the
  query on \<open>t\<close> returns nor what \<open>value()\<close> returns.
\<close>

theorem diff_queries_are_pure:
  assumes "fresh_allocator alloc" "reachable alloc a" "valid_version a s" "valid_version a t"
  shows "\<exists>a1 x a2 a3 y a4 a5 w a6 a7 a8.
       diff_to_current a s = Some (Inr (a1, x))
     \<and> diff_to_current a1 s = Some (Inr (a2, x))
     \<and> diff_to_current a t = Some (Inr (a3, y))
     \<and> diff_to_current a1 t = Some (Inr (a4, y))
     \<and> value a = Some (Inr (a5, w))
     \<and> value a1 = Some (Inr (a6, w))
     \<and> diff_to_current a5 t = Some (Inr (a7, y))
     \<and> value a5 = Some (Inr (a8, w))"
proof -
  from reachable_well_formed [OF assms(1,2)] have wf: "well_formed a" .
  note lv = lastv_valid [OF wf]
  from purity [OF wf assms(3,3)] obtain a1 x a2 where ss:
    "diff_to_current a s = Some (Inr (a1, x))" "diff_to_current a1 s = Some (Inr (a2, x))"
    by auto
  from purity [OF wf assms(3,4)] ss(1) obtain a3 y a4 where st:
    "diff_to_current a t = Some (Inr (a3, y))" "diff_to_current a1 t = Some (Inr (a4, y))"
    by auto
  from purity [OF wf assms(3) lv] ss(1) obtain a5 w a6 where sl:
    "diff_to_current a (lastv a) = Some (Inr (a5, w))"
    "diff_to_current a1 (lastv a) = Some (Inr (a6, w))" "lastv a1 = lastv a"
    by auto
  from purity [OF wf lv assms(4)] sl(1) st(1) obtain a7 where lt:
    "diff_to_current a5 t = Some (Inr (a7, y))" by auto
  from purity [OF wf lv lv] sl(1) obtain a8 where ll:
    "diff_to_current a5 (lastv a) = Some (Inr (a8, w))" "lastv a5 = lastv a" by auto
  from sl ll have "value a = Some (Inr (a5, w))" "value a1 = Some (Inr (a6, w))"
    "value a5 = Some (Inr (a8, w))" by (simp_all add: value_def)
  with ss st lt show ?thesis by blast
qed

theorem diff_queries_are_pure_witness:
  "fresh_allocator bump \<and> reachable bump archive_13_3_4
   \<and> valid_version archive_13_3_4 (Version (Some 0))
   \<and> valid_version archive_13_3_4 (Version (Some 1))
   \<and> (\<exists>a1 x a2 a3 y a4 a5 w a6 a7 a8.
       diff_to_current archive_13_3_4 (Version (Some 0)) = Some (Inr (a1, x))
     \<and> diff_to_current a1 (Version (Some 0)) = Some (Inr (a2, x))
     \<and> diff_to_current archive_13_3_4 (Version (Some 1)) = Some (Inr (a3, y))
     \<and> diff_to_current a1 (Version (Some 1)) = Some (Inr (a4, y))
     \<and> value archive_13_3_4 = Some (Inr (a5, w))
     \<and> value a1 = Some (Inr (a6, w))
     \<and> diff_to_current a5 (Version (Some 1)) = Some (Inr (a7, y))
     \<and> value a5 = Some (Inr (a8, w)))"
proof -
  have v0: "valid_version archive_13_3_4 (Version (Some 0))"
    by (simp add: valid_version_def archive_13_3_4_def)
  have v1: "valid_version archive_13_3_4 (Version (Some 1))"
    by (simp add: valid_version_def archive_13_3_4_def)
  show ?thesis
    by (intro conjI)
      (rule bump_fresh, rule reachable_archive_13_3_4, rule v0, rule v1,
       rule diff_queries_are_pure [OF bump_fresh reachable_archive_13_3_4 v0 v1])
qed

text \<open>
  C8 says that after \<open>clear_history()\<close>, \<open>value()\<close> returns what it returned just
  before the call. The two statements of \<open>clear_history\<close> do build an archive with that
  value, on every reachable archive; then the body ends without a \<open>return\<close> statement,
  and the call does not return: there is no archive after it to ask for its value.
\<close>

theorem clear_history_rebuilds_then_faults:
  assumes "fresh_allocator alloc" "reachable alloc a"
  shows "\<exists>a0 x a3 a4.
       value a = Some (Inr (a0, x))
     \<and> clear_history_statements alloc a = Some (Inr a3)
     \<and> value a3 = Some (Inr (a4, x))
     \<and> clear_history alloc a = Some (Inl Missing_return)"
proof -
  from reachable_well_formed [OF assms] have wf: "well_formed a" .
  from clear_history_well_formed [OF assms(1) wf assms(2)] obtain a0 x a3 p g ps where c:
    "value a = Some (Inr (a0, x))" "clear_history_statements alloc a = Some (Inr a3)"
    "clear_history alloc a = Some (Inl Missing_return)"
    "well_formed a3" "storage a3 = [g, p]" "lastv a3 = Version (Some p)"
    "walk (cells a3) p g ps x" by blast
  from value_of_chain [OF c(4,5,6,7)] obtain a4 where "value a3 = Some (Inr (a4, x))" ..
  with c(1,2,3) show ?thesis by blast
qed

theorem clear_history_rebuilds_then_faults_witness:
  "fresh_allocator bump \<and> reachable bump archive_13_3_4
   \<and> (\<exists>a0 x a3 a4.
       value archive_13_3_4 = Some (Inr (a0, x))
     \<and> clear_history_statements bump archive_13_3_4 = Some (Inr a3)
     \<and> value a3 = Some (Inr (a4, x))
     \<and> clear_history bump archive_13_3_4 = Some (Inl Missing_return))"
  by (intro conjI)
    (rule bump_fresh, rule reachable_archive_13_3_4,
     rule clear_history_rebuilds_then_faults [OF bump_fresh reachable_archive_13_3_4])

text \<open>
  C9. In every reachable archive, that is after the constructor and after every public
  operation that returns, path-compressing queries included, the list of commits is not
  empty, its nodes are distinct and are the allocated ones, and a commit is its own
  successor exactly when it is the front node of the list, the commit created last.
\<close>

theorem exactly_one_head:
  assumes "fresh_allocator alloc" "reachable alloc a"
  shows "storage a \<noteq> [] \<and> distinct (storage a) \<and> dom (cells a) = set (storage a)
     \<and> (\<forall>p\<in>set (storage a). \<exists>c. cells a p = Some c
            \<and> (first c = Some p \<longleftrightarrow> p = hd (storage a)))"
proof -
  from reachable_well_formed [OF assms] have wf: "well_formed a" .
  then obtain g rest where st: "storage a = g # rest" and dist: "distinct (storage a)"
    and dm: "dom (cells a) = set (storage a)"
    and hd: "cells a g = Some \<lparr>first = Some g, second = 0\<rparr>"
    and ws: "\<forall>p\<in>set (storage a). \<exists>ps d. walk (cells a) p g ps d"
    by (auto elim!: well_formedD)
  have "\<forall>p\<in>set (storage a). \<exists>c. cells a p = Some c
            \<and> (first c = Some p \<longleftrightarrow> p = hd (storage a))"
  proof
    fix p assume "p \<in> set (storage a)"
    with ws obtain ps d where w: "walk (cells a) p g ps d" by blast
    from walk_start [OF w] obtain c where c: "cells a p = Some c" ..
    have "first c = Some p \<longleftrightarrow> p = g"
    proof
      assume "first c = Some p"
      from walk_self [OF c this w] show "p = g" by simp
    next
      assume "p = g"
      with c hd show "first c = Some p" by auto
    qed
    with c st show "\<exists>c. cells a p = Some c \<and> (first c = Some p \<longleftrightarrow> p = hd (storage a))"
      by simp
  qed
  with st dist dm show ?thesis by simp
qed

theorem exactly_one_head_witness:
  "fresh_allocator bump \<and> reachable bump archive_13_3_4
   \<and> storage archive_13_3_4 \<noteq> [] \<and> distinct (storage archive_13_3_4)
   \<and> dom (cells archive_13_3_4) = set (storage archive_13_3_4)
   \<and> 2 \<in> set (storage archive_13_3_4)
   \<and> (\<exists>c. cells archive_13_3_4 2 = Some c
          \<and> (first c = Some 2 \<longleftrightarrow> 2 = hd (storage archive_13_3_4)))
   \<and> 3 \<in> set (storage archive_13_3_4)
   \<and> (\<exists>c. cells archive_13_3_4 3 = Some c
          \<and> (first c = Some 3 \<longleftrightarrow> 3 = hd (storage archive_13_3_4)))"
proof -
  note t = exactly_one_head [OF bump_fresh reachable_archive_13_3_4]
  have m2: "2 \<in> set (storage archive_13_3_4)" by (simp add: archive_13_3_4_def)
  have m3: "3 \<in> set (storage archive_13_3_4)" by (simp add: archive_13_3_4_def)
  from t m2 have c2: "\<exists>c. cells archive_13_3_4 2 = Some c
          \<and> (first c = Some 2 \<longleftrightarrow> 2 = hd (storage archive_13_3_4))" by blast
  from t m3 have c3: "\<exists>c. cells archive_13_3_4 3 = Some c
          \<and> (first c = Some 3 \<longleftrightarrow> 3 = hd (storage archive_13_3_4))" by blast
  from t have t3: "storage archive_13_3_4 \<noteq> []" "distinct (storage archive_13_3_4)"
    "dom (cells archive_13_3_4) = set (storage archive_13_3_4)" by blast+
  show ?thesis
    by (intro conjI)
      (rule bump_fresh, rule reachable_archive_13_3_4, rule t3(1), rule t3(2), rule t3(3),
       rule m2, rule c2, rule m3, rule c3)
qed

text \<open>
  C10. \<open>increment_by\<close> invalidates no version. A version that is valid on a reachable
  archive is valid after \<open>increment_by(d)\<close>, and the query on it then returns what the
  query returned before the call, plus \<open>d\<close>, whether or not that earlier query was made
  on the archive.
\<close>

theorem increment_by_keeps_versions:
  assumes "fresh_allocator alloc" "reachable alloc a" "valid_version a s"
  shows "\<exists>a0 x a1 s1 a2 b1 t1 b2.
       diff_to_current a s = Some (Inr (a0, x))
     \<and> increment_by alloc d a0 = Inr (a1, s1)
     \<and> valid_version a1 s
     \<and> diff_to_current a1 s = Some (Inr (a2, x + d))
     \<and> increment_by alloc d a = Inr (b1, t1)
     \<and> valid_version b1 s
     \<and> diff_to_current b1 s = Some (Inr (b2, x + d))"
proof -
  from reachable_well_formed [OF assms(1,2)] have wf: "well_formed a" .
  from increment_shifts [OF assms(1) wf assms(3), of d] obtain a0 x b1 t1 b2 where b:
    "diff_to_current a s = Some (Inr (a0, x))" "increment_by alloc d a = Inr (b1, t1)"
    "valid_version b1 s" "diff_to_current b1 s = Some (Inr (b2, x + d))" by blast
  from purity [OF wf assms(3,3)] obtain c1 x1 c3 y1 c4 where c:
    "diff_to_current a s = Some (Inr (c1, x1))" "diff_to_current a s = Some (Inr (c3, y1))"
    "diff_to_current c1 s = Some (Inr (c4, y1))" "well_formed c1" "storage c1 = storage a"
    by blast
  from c(1,2) b(1) have e: "c1 = a0" "y1 = x" by simp_all
  from c(3,4,5) e have a0: "diff_to_current a0 s = Some (Inr (c4, x))" "well_formed a0"
    "storage a0 = storage a" by simp_all
  from assms(3) have v0: "valid_version a0 s" by (simp add: valid_version_storage [OF a0(3)])
  from increment_shifts [OF assms(1) a0(2) v0, of d] obtain a0' x' a1 s1 a2 where i:
    "diff_to_current a0 s = Some (Inr (a0', x'))"
    "increment_by alloc d a0 = Inr (a1, s1)" "valid_version a1 s"
    "diff_to_current a1 s = Some (Inr (a2, x' + d))" by blast
  from i(1) a0(1) have "x' = x" by simp
  with i have a1: "increment_by alloc d a0 = Inr (a1, s1)" "valid_version a1 s"
    "diff_to_current a1 s = Some (Inr (a2, x + d))" by simp_all
  from b a1 show ?thesis by blast
qed

theorem increment_by_keeps_versions_witness:
  "fresh_allocator bump \<and> reachable bump archive_13_3_4
   \<and> valid_version archive_13_3_4 (Version (Some 1))
   \<and> (\<exists>a0 x a1 s1 a2 b1 t1 b2.
       diff_to_current archive_13_3_4 (Version (Some 1)) = Some (Inr (a0, x))
     \<and> increment_by bump 7 a0 = Inr (a1, s1)
     \<and> valid_version a1 (Version (Some 1))
     \<and> diff_to_current a1 (Version (Some 1)) = Some (Inr (a2, x + 7))
     \<and> increment_by bump 7 archive_13_3_4 = Inr (b1, t1)
     \<and> valid_version b1 (Version (Some 1))
     \<and> diff_to_current b1 (Version (Some 1)) = Some (Inr (b2, x + 7)))"
proof -
  have v1: "valid_version archive_13_3_4 (Version (Some 1))"
    by (simp add: valid_version_def archive_13_3_4_def)
  show ?thesis
    by (intro conjI)
      (rule bump_fresh, rule reachable_archive_13_3_4, rule v1,
       rule increment_by_keeps_versions [OF bump_fresh reachable_archive_13_3_4 v1])
qed

end
